theory Spec2Isabelle
  imports Complex_Main "HOL-Library.AList" "HOL-Library.Product_Lexorder" "HOL-Library.Multiset"
begin

section \<open>Score records and the score aggregator (models.py)\<close>

text \<open>
  A row of the \<^verbatim>\<open>Score\<close> table. The four foreign keys are the primary keys of the rows
  they point to (\<^verbatim>\<open>term\<close> is written \<open>term_id\<close>). \<^verbatim>\<open>class_score\<close> and \<^verbatim>\<open>exam_score\<close> are
  \<^verbatim>\<open>DecimalField(max_digits=5, decimal_places=2)\<close>: what the database hands back is a
  decimal with two places, kept here as its number of hundredths (\<open>79.99\<close> is \<open>7999\<close>,
  the validator bounds \<open>0\<close> and \<open>50\<close> are \<open>0\<close> and \<open>5000\<close>). Python adds such
  decimals exactly (the context keeps 28 digits, a field has five), so the sums below are
  integer sums of hundredths.
\<close>

record score =
  student :: nat
  subject :: nat
  term_id :: nat
  academic_year :: nat
  class_score :: int
  exam_score :: int

definition total_score :: "score \<Rightarrow> int" where
  "total_score s = class_score s + exam_score s"

text \<open>
  The \<^verbatim>\<open>if/elif\<close> chain of \<^verbatim>\<open>Score.grade\<close> on its local \<^verbatim>\<open>score\<close>; the thresholds
  80, 70, 60 and 50 in hundredths.
\<close>

definition grade_of :: "int \<Rightarrow> string" where
  "grade_of sc =
     (if sc \<ge> 8000 then ''A''
      else if sc \<ge> 7000 then ''B''
      else if sc \<ge> 6000 then ''C''
      else if sc \<ge> 5000 then ''D''
      else ''F'')"

definition grade :: "score \<Rightarrow> string" where
  "grade s = grade_of (total_score s)"

text \<open>The \<^verbatim>\<open>if/elif\<close> chain of \<^verbatim>\<open>Score.remarks\<close> on its local \<^verbatim>\<open>grade\<close>.\<close>

definition remark_of :: "string \<Rightarrow> string" where
  "remark_of g =
     (if g = ''A'' then ''Excellent''
      else if g = ''B'' then ''Very Good''
      else if g = ''C'' then ''Good''
      else if g = ''D'' then ''Pass''
      else ''Fail'')"

definition remarks :: "score \<Rightarrow> string" where
  "remarks s = remark_of (grade s)"

text \<open>A record with the given two component marks (hundredths); the keys do not matter.\<close>

definition marks :: "int \<Rightarrow> int \<Rightarrow> score" where
  "marks c e = \<lparr>student = 0, subject = 0, term_id = 0, academic_year = 0,
                class_score = c, exam_score = e\<rparr>"

section \<open>Python values the ranking code relies on\<close>

text \<open>
  The ranking functions raise nothing themselves; what could raise is the indexing
  \<^verbatim>\<open>ranked_scores[i-1]\<close> and the division by \<^verbatim>\<open>student_scores.count()\<close>. Both are kept
  as fallible operations, so that their guards are part of what is proved.
\<close>

datatype py_error = IndexError | ZeroDivisionError

text \<open>Indexing a list at an index that is not negative.\<close>

definition py_index :: "'a list \<Rightarrow> nat \<Rightarrow> py_error + 'a" where
  "py_index xs i = (if i < length xs then Inr (xs ! i) else Inl IndexError)"

text \<open>
  \<^verbatim>\<open>sorted(xs, key=f, reverse=True)\<close>: Python reverses the list, sorts it stably in
  ascending order, and reverses the outcome, so that equal keys keep their order.
\<close>

definition sorted_desc :: "('a \<Rightarrow> 'v::linorder) \<Rightarrow> 'a list \<Rightarrow> 'a list" where
  "sorted_desc f xs = rev (sort_key f (rev xs))"

subsection \<open>Decimal division\<close>

text \<open>
  \<^verbatim>\<open>Decimal / int\<close> under Python's default context (\<^verbatim>\<open>prec=28\<close>,
  \<^verbatim>\<open>ROUND_HALF_EVEN\<close>): the exact quotient, correctly rounded to 28 significant digits.
  A decimal is held as the rational number it denotes; comparison, all the ranking does with
  it, sees nothing else.
\<close>

fun digits :: "nat \<Rightarrow> nat" where
  "digits n = (if n < 10 then 1 else Suc (digits (n div 10)))"

declare digits.simps [simp del]

definition pow10 :: "int \<Rightarrow> rat" where
  "pow10 e = (if 0 \<le> e then 10 ^ nat e else 1 / 10 ^ nat (- e))"

text \<open>The exponent of the leading digit of \<open>q \<noteq> 0\<close>: \<open>pow10 e \<le> \<bar>q\<bar> < pow10 (e + 1)\<close>.\<close>

definition adjusted :: "rat \<Rightarrow> int" where
  "adjusted q =
     (if 1 \<le> \<bar>q\<bar> then int (digits (nat \<lfloor>\<bar>q\<bar>\<rfloor>)) - 1
      else - int (digits (nat (\<lceil>1 / \<bar>q\<bar>\<rceil> - 1))))"

definition round_half_even :: "rat \<Rightarrow> int" where
  "round_half_even x =
     (let f = \<lfloor>x\<rfloor>; d = x - of_int f
      in if d < 1 / 2 then f
         else if 1 / 2 < d then f + 1
         else if even f then f else f + 1)"

definition dec_round :: "rat \<Rightarrow> rat" where
  "dec_round q =
     (if q = 0 then 0
      else let e = adjusted q - 27
           in of_int (round_half_even (q / pow10 e)) * pow10 e)"

text \<open>
  The dividend is a sum of field values, in hundredths, and so is the quotient: rounding to
  significant digits does not depend on where the decimal point is.
\<close>

definition dec_div :: "int \<Rightarrow> nat \<Rightarrow> py_error + rat" where
  "dec_div a n = (if n = 0 then Inl ZeroDivisionError else Inr (dec_round (of_int a / of_nat n)))"

section \<open>The rank calculator (views.py)\<close>

text \<open>
  The loop that both ranking functions end with, for the entries \<open>(i, x)\<close> that
  \<^verbatim>\<open>enumerate(ranked)\<close> still has to deliver:
  \<^verbatim>\<open>
    if i > 0 and val(x) < val(ranked[i-1]):
        current_rank = i + 1
    positions[key(x)] = current_rank
  \<close>
\<close>

fun rank_loop ::
  "('a \<Rightarrow> 'k) \<Rightarrow> ('a \<Rightarrow> 'v::linorder) \<Rightarrow> 'a list \<Rightarrow> (nat \<times> 'a) list \<Rightarrow> nat \<Rightarrow> ('k \<rightharpoonup> nat)
     \<Rightarrow> py_error + ('k \<rightharpoonup> nat)" where
  "rank_loop key val ranked [] current_rank positions = Inr positions"
| "rank_loop key val ranked ((i, x) # rest) current_rank positions =
     (if i > 0 then
        (case py_index ranked (i - 1) of
           Inl err \<Rightarrow> Inl err
         | Inr prev \<Rightarrow>
             (let rank' = (if val x < val prev then i + 1 else current_rank)
              in rank_loop key val ranked rest rank' (positions(key x \<mapsto> rank'))))
      else rank_loop key val ranked rest current_rank (positions(key x \<mapsto> current_rank)))"

subsection \<open>Position within each subject\<close>

text \<open>
  \<^verbatim>\<open>scores_queryset.filter(subject__id=subject_id).order_by('-class_score', '-exam_score')\<close>:
  the rows of one subject, by class score and then exam score, both descending. The database
  leaves the order of rows that agree in both open; here they keep the order of the
  queryset. The positions do not depend on it: they are the same for any order of the rows,
  as is proved below.
\<close>

definition subject_scores :: "score list \<Rightarrow> nat \<Rightarrow> score list" where
  "subject_scores scores_queryset subject_id =
     sort_key (\<lambda>s. (- class_score s, - exam_score s))
       (filter (\<lambda>s. subject s = subject_id) scores_queryset)"

definition ranked_scores :: "score list \<Rightarrow> nat \<Rightarrow> score list" where
  "ranked_scores scores_queryset subject_id =
     sorted_desc total_score (subject_scores scores_queryset subject_id)"

definition position_key :: "score \<Rightarrow> nat \<times> nat" where
  "position_key s = (student s, subject s)"

text \<open>The outer loop, over the subject ids still to do.\<close>

fun subject_loop ::
  "score list \<Rightarrow> nat list \<Rightarrow> (nat \<times> nat \<rightharpoonup> nat) \<Rightarrow> py_error + (nat \<times> nat \<rightharpoonup> nat)" where
  "subject_loop scores_queryset [] subject_positions = Inr subject_positions"
| "subject_loop scores_queryset (subject_id # rest) subject_positions =
     (let ranked = ranked_scores scores_queryset subject_id
      in case rank_loop position_key total_score ranked (enumerate 0 ranked) 1 subject_positions of
           Inl err \<Rightarrow> Inl err
         | Inr subject_positions' \<Rightarrow> subject_loop scores_queryset rest subject_positions')"

text \<open>
  The queryset is the list of its rows;
  \<^verbatim>\<open>values_list('subject', flat=True).distinct()\<close> is the list of their subject ids
  without repetitions. Neither the order of this list nor a repeated id would change the
  outcome: the entries of two subjects have different keys, and a subject done twice is
  given the same positions again (\<open>fold_subject_assign\<close> below).
\<close>

definition calculate_subject_positions :: "score list \<Rightarrow> py_error + (nat \<times> nat \<rightharpoonup> nat)" where
  "calculate_subject_positions scores_queryset =
     subject_loop scores_queryset (remdups (map subject scores_queryset)) Map.empty"

subsection \<open>Position in the class\<close>

text \<open>
  \<^verbatim>\<open>Score.objects.filter(student=student, academic_year=academic_year, term=term)\<close>, the
  table \<^verbatim>\<open>Score.objects\<close> being the first argument; a student is the primary key.
\<close>

definition student_scores :: "score list \<Rightarrow> nat \<Rightarrow> nat \<Rightarrow> nat \<Rightarrow> score list" where
  "student_scores objects st year tm =
     filter (\<lambda>s. student s = st \<and> academic_year s = year \<and> term_id s = tm) objects"

text \<open>
  The first loop, over the students still to do. \<^verbatim>\<open>student_averages\<close> is a dictionary
  whose order of insertion matters to the sort that follows: an association list, a repeated
  key keeping its place.
\<close>

fun averages_loop ::
  "score list \<Rightarrow> nat \<Rightarrow> nat \<Rightarrow> nat list \<Rightarrow> (nat \<times> rat) list \<Rightarrow> py_error + (nat \<times> rat) list" where
  "averages_loop objects year tm [] student_averages = Inr student_averages"
| "averages_loop objects year tm (st # rest) student_averages =
     (let scs = student_scores objects st year tm
      in if scs \<noteq> [] then
           (case dec_div (sum_list (map total_score scs)) (length scs) of
              Inl err \<Rightarrow> Inl err
            | Inr average_score \<Rightarrow>
                averages_loop objects year tm rest (AList.update st average_score student_averages))
         else averages_loop objects year tm rest (AList.update st 0 student_averages))"

definition student_averages :: "score list \<Rightarrow> nat list \<Rightarrow> nat \<Rightarrow> nat \<Rightarrow> py_error + (nat \<times> rat) list" where
  "student_averages objects students_in_class year tm =
     averages_loop objects year tm students_in_class []"

definition calculate_class_positions ::
  "score list \<Rightarrow> nat list \<Rightarrow> nat \<Rightarrow> nat \<Rightarrow> py_error + (nat \<rightharpoonup> nat)" where
  "calculate_class_positions objects students_in_class year tm =
     (case student_averages objects students_in_class year tm of
        Inl err \<Rightarrow> Inl err
      | Inr avgs \<Rightarrow>
          (let sorted_students_by_avg = sorted_desc snd avgs
           in rank_loop fst snd sorted_students_by_avg (enumerate 0 sorted_students_by_avg)
                1 Map.empty))"

text \<open>A row with the given student, subject and component marks, in term 1 of year 1.\<close>

definition row :: "nat \<Rightarrow> nat \<Rightarrow> int \<Rightarrow> int \<Rightarrow> score" where
  "row st sb c e = \<lparr>student = st, subject = sb, term_id = 1, academic_year = 1,
                     class_score = c, exam_score = e\<rparr>"

text \<open>
  Six rows of one subject with the totals 90, 90, 80, 70, 70 and 70, each of another student.
\<close>

definition six :: "score list" where
  "six = [row 1 1 4500 4500, row 2 1 4000 5000, row 3 1 4000 4000, row 4 1 3500 3500,
          row 5 1 3000 4000, row 6 1 5000 2000]"

section \<open>What the loops compute\<close>

text \<open>
  Closed forms of the loops above, used in the proofs only. \<open>walk_rank vs i\<close> is the value
  of \<^verbatim>\<open>current_rank\<close> after the iteration at index \<open>i\<close> over a list with the values
  \<open>vs\<close>; \<open>assign\<close> is the dictionary after the iterations at the given indices.
\<close>

fun walk_rank :: "'v::linorder list \<Rightarrow> nat \<Rightarrow> nat" where
  "walk_rank vs 0 = 1"
| "walk_rank vs (Suc i) = (if vs ! Suc i < vs ! i then Suc i + 1 else walk_rank vs i)"

definition assign ::
  "('a \<Rightarrow> 'k) \<Rightarrow> ('a \<Rightarrow> 'v::linorder) \<Rightarrow> 'a list \<Rightarrow> nat list \<Rightarrow> ('k \<rightharpoonup> nat)
     \<Rightarrow> ('k \<rightharpoonup> nat)" where
  "assign key val ranked is pos =
     fold (\<lambda>i m. m(key (ranked ! i) \<mapsto> walk_rank (map val ranked) i)) is pos"

definition subject_assign :: "score list \<Rightarrow> nat \<Rightarrow> (nat \<times> nat \<rightharpoonup> nat) \<Rightarrow> (nat \<times> nat \<rightharpoonup> nat)" where
  "subject_assign qs sid pos =
     assign position_key total_score (ranked_scores qs sid) [0..<length (ranked_scores qs sid)] pos"

definition average_of :: "score list \<Rightarrow> nat \<Rightarrow> nat \<Rightarrow> nat \<Rightarrow> rat" where
  "average_of objects year tm st =
     (let scs = student_scores objects st year tm
      in if scs \<noteq> [] then dec_round (of_int (sum_list (map total_score scs)) / of_nat (length scs))
         else 0)"

definition averages_of :: "score list \<Rightarrow> nat \<Rightarrow> nat \<Rightarrow> nat list \<Rightarrow> (nat \<times> rat) list \<Rightarrow> (nat \<times> rat) list" where
  "averages_of objects year tm sts avs =
     fold (\<lambda>st a. AList.update st (average_of objects year tm st) a) sts avs"

definition class_ranked :: "score list \<Rightarrow> nat list \<Rightarrow> nat \<Rightarrow> nat \<Rightarrow> (nat \<times> rat) list" where
  "class_ranked objects sts year tm = sorted_desc snd (averages_of objects year tm sts [])"

text \<open>
  The position of key \<open>k\<close> in a group \<open>g\<close>, said without sorting: one more than the
  number of entries whose value exceeds the least value entered under \<open>k\<close>. The rows of a
  subject are the group of that subject.
\<close>

definition rank_in :: "('a \<Rightarrow> 'k) \<Rightarrow> ('a \<Rightarrow> 'v::linorder) \<Rightarrow> 'a list \<Rightarrow> 'k \<Rightarrow> nat option" where
  "rank_in key val g k =
     (if k \<in> key ` set g
      then Some (Suc (length (filter (\<lambda>x. Min (val ` {y \<in> set g. key y = k}) < val x) g)))
      else None)"

definition subject_group :: "score list \<Rightarrow> nat \<Rightarrow> score list" where
  "subject_group qs sid = filter (\<lambda>s. subject s = sid) qs"


section \<open>Properties of the aggregator\<close>

lemma grade_of_cases:
  "grade_of t = ''A'' \<or> grade_of t = ''B'' \<or> grade_of t = ''C'' \<or> grade_of t = ''D''
     \<or> grade_of t = ''F''"
  by (simp add: grade_of_def)

text \<open>
  Claim C2. The grade of a record is decided by its total alone, in half-open bands that
  include their lower edge: 80 and more is A, from 70 up to 80 is B, from 60 up to 70 is C,
  from 50 up to 60 is D, below 50 is F. At the edges: 80.00 is A, 79.99 is B, 50.00 is D and
  49.99 is F.
\<close>

theorem grade_bands:
  "(8000 \<le> total_score s \<longrightarrow> grade s = ''A'')
   \<and> (7000 \<le> total_score s \<and> total_score s < 8000 \<longrightarrow> grade s = ''B'')
   \<and> (6000 \<le> total_score s \<and> total_score s < 7000 \<longrightarrow> grade s = ''C'')
   \<and> (5000 \<le> total_score s \<and> total_score s < 6000 \<longrightarrow> grade s = ''D'')
   \<and> (total_score s < 5000 \<longrightarrow> grade s = ''F'')
   \<and> grade (marks 4000 4000) = ''A'' \<and> grade (marks 4000 3999) = ''B''
   \<and> grade (marks 2500 2500) = ''D'' \<and> grade (marks 2500 2499) = ''F''"
  by (simp add: grade_def grade_of_def total_score_def marks_def)

theorem grade_bands_witness:
  "total_score (marks 3000 3550) = 6550 \<and> grade (marks 3000 3550) = ''C''
   \<and> total_score (marks 5000 4100) = 9100 \<and> grade (marks 5000 4100) = ''A''
   \<and> total_score (marks 3500 3999) = 7499 \<and> grade (marks 3500 3999) = ''B''
   \<and> total_score (marks 2000 3000) = 5000 \<and> grade (marks 2000 3000) = ''D''
   \<and> total_score (marks 1000 1200) = 2200 \<and> grade (marks 1000 1200) = ''F''"
  using grade_bands [of "marks 3000 3550"] grade_bands [of "marks 5000 4100"]
    grade_bands [of "marks 3500 3999"] grade_bands [of "marks 2000 3000"]
    grade_bands [of "marks 1000 1200"]
  by (simp add: total_score_def marks_def)

text \<open>
  Claim C6. When both component marks lie between 0 and 50, the total is their sum, with
  nothing rounded away, and lies between 0 and 100.
\<close>

theorem total_score_exact_in_range:
  "0 \<le> class_score s \<and> class_score s \<le> 5000 \<and> 0 \<le> exam_score s \<and> exam_score s \<le> 5000
   \<Longrightarrow> total_score s = class_score s + exam_score s
       \<and> 0 \<le> total_score s \<and> total_score s \<le> 10000"
  by (simp add: total_score_def)

theorem total_score_exact_in_range_witness:
  "0 \<le> class_score (marks 4999 1) \<and> class_score (marks 4999 1) \<le> 5000
   \<and> 0 \<le> exam_score (marks 4999 1) \<and> exam_score (marks 4999 1) \<le> 5000
   \<and> total_score (marks 4999 1) = 5000"
  using total_score_exact_in_range [of "marks 4999 1"]
  by (simp add: marks_def)

text \<open>
  Claim C7. The remark of a record is fixed by its grade through the table: A is
  "Excellent", B is "Very Good", C is "Good", D is "Pass" and F is "Fail". A record graded A
  has the remark "Excellent", and so on for the five letters; the grade of a record is
  always one of these five letters, so the table is exhaustive; and two records with the
  same grade have the same remark.
\<close>

theorem remarks_by_grade:
  "remark_of ''A'' = ''Excellent'' \<and> remark_of ''B'' = ''Very Good''
   \<and> remark_of ''C'' = ''Good'' \<and> remark_of ''D'' = ''Pass'' \<and> remark_of ''F'' = ''Fail''
   \<and> grade s1 \<in> {''A'', ''B'', ''C'', ''D'', ''F''}
   \<and> remarks s1 \<in> {''Excellent'', ''Very Good'', ''Good'', ''Pass'', ''Fail''}
   \<and> (grade s1 = grade s2 \<longrightarrow> remarks s1 = remarks s2)
   \<and> remarks s1 = remark_of (grade s1)
   \<and> (grade s1 = ''A'' \<longrightarrow> remarks s1 = ''Excellent'')
   \<and> (grade s1 = ''B'' \<longrightarrow> remarks s1 = ''Very Good'')
   \<and> (grade s1 = ''C'' \<longrightarrow> remarks s1 = ''Good'')
   \<and> (grade s1 = ''D'' \<longrightarrow> remarks s1 = ''Pass'')
   \<and> (grade s1 = ''F'' \<longrightarrow> remarks s1 = ''Fail'')"
proof -
  have tbl: "remark_of ''A'' = ''Excellent'' \<and> remark_of ''B'' = ''Very Good''
      \<and> remark_of ''C'' = ''Good'' \<and> remark_of ''D'' = ''Pass'' \<and> remark_of ''F'' = ''Fail''"
    by (simp add: remark_of_def)
  have g: "grade s1 \<in> {''A'', ''B'', ''C'', ''D'', ''F''}"
    using grade_of_cases [of "total_score s1"] by (auto simp: grade_def)
  have r: "remarks s1 \<in> {''Excellent'', ''Very Good'', ''Good'', ''Pass'', ''Fail''}"
    using grade_of_cases [of "total_score s1"] tbl by (auto simp: remarks_def grade_def)
  have p: "grade s1 = grade s2 \<longrightarrow> remarks s1 = remarks s2"
    by (simp add: remarks_def)
  have c: "remarks s1 = remark_of (grade s1)"
    by (simp add: remarks_def)
  have t: "(grade s1 = ''A'' \<longrightarrow> remarks s1 = ''Excellent'')
      \<and> (grade s1 = ''B'' \<longrightarrow> remarks s1 = ''Very Good'')
      \<and> (grade s1 = ''C'' \<longrightarrow> remarks s1 = ''Good'')
      \<and> (grade s1 = ''D'' \<longrightarrow> remarks s1 = ''Pass'')
      \<and> (grade s1 = ''F'' \<longrightarrow> remarks s1 = ''Fail'')"
    using tbl by (simp add: remarks_def)
  from tbl g r p c t show ?thesis by blast
qed

theorem remarks_by_grade_witness:
  "grade (marks 4000 3000) = grade (marks 3500 3600)
   \<and> remarks (marks 4000 3000) = remarks (marks 3500 3600)
   \<and> grade (marks 4000 4000) = ''A'' \<and> remarks (marks 4000 4000) = ''Excellent''
   \<and> grade (marks 4000 3000) = ''B'' \<and> remarks (marks 4000 3000) = ''Very Good''
   \<and> grade (marks 3000 3000) = ''C'' \<and> remarks (marks 3000 3000) = ''Good''
   \<and> grade (marks 2500 2500) = ''D'' \<and> remarks (marks 2500 2500) = ''Pass''
   \<and> grade (marks 2500 2499) = ''F'' \<and> remarks (marks 2500 2499) = ''Fail''"
proof -
  have g1: "grade (marks 4000 3000) = grade (marks 3500 3600)"
    by (simp add: grade_def grade_of_def total_score_def marks_def)
  have gA: "grade (marks 4000 4000) = ''A''"
    and gB: "grade (marks 4000 3000) = ''B''"
    and gC: "grade (marks 3000 3000) = ''C''"
    and gD: "grade (marks 2500 2500) = ''D''"
    and gF: "grade (marks 2500 2499) = ''F''"
    by (simp_all add: grade_def grade_of_def total_score_def marks_def)
  have r1: "remarks (marks 4000 3000) = remarks (marks 3500 3600)"
    using remarks_by_grade [of "marks 4000 3000" "marks 3500 3600"] g1 by blast
  have rA: "remarks (marks 4000 4000) = ''Excellent''"
    using remarks_by_grade [of "marks 4000 4000" "marks 4000 4000"] gA by blast
  have rB: "remarks (marks 4000 3000) = ''Very Good''"
    using remarks_by_grade [of "marks 4000 3000" "marks 4000 3000"] gB by blast
  have rC: "remarks (marks 3000 3000) = ''Good''"
    using remarks_by_grade [of "marks 3000 3000" "marks 3000 3000"] gC by blast
  have rD: "remarks (marks 2500 2500) = ''Pass''"
    using remarks_by_grade [of "marks 2500 2500" "marks 2500 2500"] gD by blast
  have rF: "remarks (marks 2500 2499) = ''Fail''"
    using remarks_by_grade [of "marks 2500 2499" "marks 2500 2499"] gF by blast
  from g1 r1 gA rA gB rB gC rC gD rD gF rF show ?thesis by blast
qed

text \<open>
  Claim C9. Grade and remark are defined for every total, not only those between 0 and 100:
  a total below 50, negative ones included, is graded F with remark "Fail", a total of 80 or
  more, also above 100, is graded A with remark "Excellent", and every record gets one of
  the five grades with its remark.
\<close>

theorem grade_remarks_total:
  "(total_score s < 5000 \<longrightarrow> grade s = ''F'' \<and> remarks s = ''Fail'')
   \<and> (8000 \<le> total_score s \<longrightarrow> grade s = ''A'' \<and> remarks s = ''Excellent'')
   \<and> (grade s, remarks s) \<in> {(''A'', ''Excellent''), (''B'', ''Very Good''), (''C'', ''Good''),
         (''D'', ''Pass''), (''F'', ''Fail'')}"
  by (simp add: remarks_def remark_of_def grade_def grade_of_def)

theorem grade_remarks_total_witness:
  "total_score (marks (- 700) 200) = - 500
   \<and> grade (marks (- 700) 200) = ''F'' \<and> remarks (marks (- 700) 200) = ''Fail''
   \<and> total_score (marks 9000 3000) = 12000
   \<and> grade (marks 9000 3000) = ''A'' \<and> remarks (marks 9000 3000) = ''Excellent''"
  using grade_remarks_total [of "marks (- 700) 200"] grade_remarks_total [of "marks 9000 3000"]
  by (simp add: total_score_def marks_def)

section \<open>Decimal rounding\<close>

lemma pow10_powi: "pow10 e = 10 powi e"
  by (simp add: pow10_def power_int_def inverse_eq_divide power_one_over)

lemma pow10_pos: "0 < pow10 e"
  by (simp add: pow10_powi)

lemma pow10_add: "pow10 (a + b) = pow10 a * pow10 b"
  by (simp add: pow10_powi power_int_add)

lemma pow10_mono: "a \<le> b \<Longrightarrow> pow10 a \<le> pow10 b"
  by (simp add: pow10_powi power_int_increasing)

lemma pow10_nat: "pow10 (int n) = 10 ^ n"
  by (simp add: pow10_powi)

lemma pow10_less_D: "pow10 a < pow10 b \<Longrightarrow> a < b"
  using pow10_mono [of b a] by (cases "a < b") simp_all

lemma digits_pos: "0 < digits n"
  by (subst digits.simps) simp

lemma digits_bounds: "0 < n \<Longrightarrow> 10 ^ (digits n - 1) \<le> n \<and> n < 10 ^ digits n"
proof (induction n rule: digits.induct)
  case (1 n)
  show ?case
  proof (cases "n < 10")
    case True
    then have "digits n = 1" by (subst digits.simps) simp
    then show ?thesis using True "1.prems" by simp
  next
    case False
    define m where "m = n div 10"
    have pos: "0 < m" using False by (simp add: m_def)
    have IH: "10 ^ (digits m - 1) \<le> m" "m < 10 ^ digits m"
      using "1.IH" [OF False] pos by (simp_all add: m_def)
    have dn: "digits n = Suc (digits m)"
      using False by (subst digits.simps) (simp add: m_def)
    have dm: "digits m = Suc (digits m - 1)" using digits_pos [of m] by simp
    have "(10::nat) ^ digits m = 10 * 10 ^ (digits m - 1)"
      by (subst dm) simp
    also have "\<dots> \<le> 10 * m" using IH(1) by simp
    also have "\<dots> \<le> n" by (simp add: m_def)
    finally have a: "10 ^ digits m \<le> n" .
    have "n < 10 * (m + 1)" by (simp add: m_def)
    also have "\<dots> \<le> 10 * 10 ^ digits m" using IH(2) by simp
    finally have b: "n < 10 ^ Suc (digits m)" by simp
    show ?thesis using a b by (simp add: dn)
  qed
qed

lemma adjusted_bounds:
  assumes q: "q \<noteq> 0"
  shows "pow10 (adjusted q) \<le> \<bar>q\<bar> \<and> \<bar>q\<bar> < pow10 (adjusted q + 1)"
proof (cases "1 \<le> \<bar>q\<bar>")
  case True
  define n where "n = nat \<lfloor>\<bar>q\<bar>\<rfloor>"
  have fl: "1 \<le> \<lfloor>\<bar>q\<bar>\<rfloor>" using True by simp
  then have n: "0 < n" and nz: "int n = \<lfloor>\<bar>q\<bar>\<rfloor>" by (simp_all add: n_def)
  have adj: "adjusted q = int (digits n) - 1"
    using True by (simp add: adjusted_def n_def)
  have adj': "adjusted q = int (digits n - 1)"
    using adj digits_pos [of n] by simp
  from digits_bounds [OF n] have b: "10 ^ (digits n - 1) \<le> n" "n < 10 ^ digits n" by simp_all
  have "pow10 (adjusted q) = of_nat (10 ^ (digits n - 1))"
    by (simp add: adj' pow10_nat)
  also have "\<dots> \<le> (of_nat n :: rat)" using b(1) by (simp only: of_nat_le_iff)
  also have "\<dots> = of_int \<lfloor>\<bar>q\<bar>\<rfloor>" using nz by (metis of_int_of_nat_eq)
  also have "\<dots> \<le> \<bar>q\<bar>" by simp
  finally have lo: "pow10 (adjusted q) \<le> \<bar>q\<bar>" .
  have "\<bar>q\<bar> < of_int (\<lfloor>\<bar>q\<bar>\<rfloor> + 1)" by linarith
  also have "\<dots> = (of_nat (n + 1) :: rat)" using nz by (metis of_int_of_nat_eq of_nat_Suc Suc_eq_plus1 of_int_add of_int_1 of_nat_add of_nat_1)
  also have "\<dots> \<le> of_nat (10 ^ digits n)" using b(2) by (simp only: of_nat_le_iff)
  also have "\<dots> = pow10 (adjusted q + 1)" by (simp add: adj pow10_nat [symmetric])
  finally have hi: "\<bar>q\<bar> < pow10 (adjusted q + 1)" .
  show ?thesis using lo hi by simp
next
  case False
  then have lt: "\<bar>q\<bar> < 1" by simp
  have qpos: "0 < \<bar>q\<bar>" using q by simp
  define x where "x = 1 / \<bar>q\<bar>"
  have x1: "1 < x" using lt qpos by (simp add: x_def)
  define c where "c = \<lceil>x\<rceil>"
  have c2: "2 \<le> c" using x1 by (simp add: c_def)
  define n where "n = nat (c - 1)"
  have n: "0 < n" and nz: "int n = c - 1" using c2 by (simp_all add: n_def)
  have adj: "adjusted q = - int (digits n)"
    using False by (simp add: adjusted_def n_def c_def x_def)
  from digits_bounds [OF n] have b: "10 ^ (digits n - 1) \<le> n" "n < 10 ^ digits n" by simp_all
  have xc: "x \<le> of_int c" by (simp add: c_def)
  have cx: "of_int (c - 1) < x" unfolding c_def by linarith
  have ci: "c \<le> 10 ^ digits n"
  proof -
    have "int n + 1 \<le> int (10 ^ digits n)" using b(2) by linarith
    then show ?thesis using nz by simp
  qed
  have "(of_int c :: rat) \<le> of_int (10 ^ digits n)"
    using ci by (simp only: of_int_le_iff)
  with xc have "x \<le> of_int (10 ^ digits n)" by linarith
  then have xu: "x \<le> 10 ^ digits n" by simp
  have cl: "10 ^ (digits n - 1) \<le> c - 1"
  proof -
    have "int (10 ^ (digits n - 1)) \<le> int n" using b(1) by linarith
    then show ?thesis using nz by simp
  qed
  have "(of_int (10 ^ (digits n - 1)) :: rat) \<le> of_int (c - 1)"
    using cl by (simp only: of_int_le_iff)
  with cx have "of_int (10 ^ (digits n - 1)) < x" by linarith
  then have xl: "10 ^ (digits n - 1) < x" by simp
  have qx: "\<bar>q\<bar> = 1 / x" using qpos by (simp add: x_def)
  have xpos: "0 < x" using x1 by simp
  have lo: "pow10 (adjusted q) \<le> \<bar>q\<bar>"
  proof -
    have "pow10 (adjusted q) = 1 / 10 ^ digits n"
      by (simp add: adj pow10_powi power_int_minus_divide)
    also have "\<dots> \<le> 1 / x" using xu xpos by (simp add: frac_le)
    finally show ?thesis by (simp add: qx)
  qed
  have hi: "\<bar>q\<bar> < pow10 (adjusted q + 1)"
  proof -
    have e: "adjusted q + 1 = - int (digits n - 1)" using adj digits_pos [of n] by simp
    have "1 / x < 1 / 10 ^ (digits n - 1)" using xl by (simp add: frac_less2)
    also have "\<dots> = pow10 (adjusted q + 1)"
      by (simp add: e pow10_powi power_int_minus_divide)
    finally show ?thesis by (simp add: qx)
  qed
  show ?thesis using lo hi by simp
qed

lemma pow10_minus: "pow10 (- e) = 1 / pow10 e"
  by (simp add: pow10_powi power_int_minus_divide)

lemma pow10_zero: "pow10 0 = 1"
  by (simp add: pow10_powi)

lemma round_half_even_of_int: "round_half_even (of_int z) = z"
  by (simp add: round_half_even_def)


lemma dec_round_exact:
  assumes n: "\<bar>n\<bar> < 10 ^ 28"
  shows "dec_round (of_int n / 10 ^ d) = of_int n / 10 ^ d"
proof (cases "n = 0")
  case True
  then show ?thesis by (simp add: dec_round_def)
next
  case False
  define q :: rat where "q = of_int n / 10 ^ d"
  have q0: "q \<noteq> 0" using False by (simp add: q_def)
  have qd: "q = of_int n * pow10 (- int d)" by (simp add: q_def pow10_minus pow10_nat)
  have "\<bar>of_int n :: rat\<bar> < of_int (10 ^ 28)"
    using n by (simp only: of_int_abs [symmetric] of_int_less_iff)
  then have nn: "\<bar>of_int n :: rat\<bar> < pow10 28" using pow10_nat [of 28] by simp
  have "\<bar>q\<bar> = \<bar>of_int n\<bar> * pow10 (- int d)"
    using pow10_pos [of "- int d"] by (simp add: qd abs_mult)
  also have "\<dots> < pow10 28 * pow10 (- int d)"
    using nn pow10_pos [of "- int d"] by (simp add: mult_strict_right_mono)
  also have "\<dots> = pow10 (28 - int d)" using pow10_add [of 28 "- int d"] by simp
  finally have qb: "\<bar>q\<bar> < pow10 (28 - int d)" .
  have "pow10 (adjusted q) < pow10 (28 - int d)"
    using adjusted_bounds [OF q0] qb by linarith
  then have ad: "adjusted q < 28 - int d" by (rule pow10_less_D)
  define e where "e = adjusted q - 27"
  define k where "k = nat (- int d - e)"
  have ke: "int k = - int d - e" using ad by (simp add: k_def e_def)
  have "q / pow10 e = of_int n * (pow10 (- int d) * pow10 (- e))"
    by (simp add: qd pow10_minus)
  also have "pow10 (- int d) * pow10 (- e) = pow10 (int k)"
    using pow10_add [of "- int d" "- e"] ke by simp
  also have "of_int n * pow10 (int k) = of_int (n * 10 ^ k)" by (simp add: pow10_nat)
  finally have qe: "q / pow10 e = of_int (n * 10 ^ k)" .
  have "dec_round q = of_int (round_half_even (q / pow10 e)) * pow10 e"
    using q0 by (simp add: dec_round_def e_def Let_def)
  also have "\<dots> = of_int (n * 10 ^ k) * pow10 e"
    by (simp only: qe round_half_even_of_int)
  also have "\<dots> = of_int n * (pow10 (int k) * pow10 e)" by (simp add: pow10_nat)
  also have "pow10 (int k) * pow10 e = pow10 (- int d)"
    using pow10_add [of "int k" e] ke by simp
  finally show ?thesis using qd by (simp add: q_def)
qed


section \<open>The loops in closed form\<close>

lemma rank_loop_eq:
  "n \<le> length ranked \<Longrightarrow> cur = (if n = 0 then 1 else walk_rank (map val ranked) (n - 1)) \<Longrightarrow>
   rank_loop key val ranked (enumerate n (drop n ranked)) cur pos
     = Inr (assign key val ranked [n..<length ranked] pos)"
proof (induction "length ranked - n" arbitrary: n cur pos)
  case 0
  then show ?case by (simp add: assign_def)
next
  case (Suc d)
  then have n: "n < length ranked" by simp
  have dr: "drop n ranked = ranked ! n # drop (Suc n) ranked"
    using n by (simp add: Cons_nth_drop_Suc)
  have up: "[n..<length ranked] = n # [Suc n..<length ranked]"
    using n by (simp add: upt_conv_Cons)
  have d: "d = length ranked - Suc n" using Suc.hyps(2) by simp
  have en: "enumerate n (drop n ranked) = (n, ranked ! n) # enumerate (Suc n) (drop (Suc n) ranked)"
    using dr by simp
  show ?case
  proof (cases n)
    case 0
    have "rank_loop key val ranked (enumerate (Suc 0) (drop (Suc 0) ranked)) 1 (pos(key (ranked ! 0) \<mapsto> 1))
       = Inr (assign key val ranked [Suc 0..<length ranked] (pos(key (ranked ! 0) \<mapsto> 1)))"
      using Suc.hyps(1) [of "Suc 0" 1 "pos(key (ranked ! 0) \<mapsto> 1)"] d n 0 by simp
    then show ?thesis
      unfolding en up using 0 Suc.prems(2) by (simp add: assign_def)
  next
    case (Suc m)
    define r where "r = walk_rank (map val ranked) n"
    have r: "r = (if val (ranked ! n) < val (ranked ! m) then n + 1 else cur)"
      using Suc n Suc.prems(2) by (simp add: r_def)
    have IH: "rank_loop key val ranked (enumerate (Suc n) (drop (Suc n) ranked)) r (pos(key (ranked ! n) \<mapsto> r))
       = Inr (assign key val ranked [Suc n..<length ranked] (pos(key (ranked ! n) \<mapsto> r)))"
      using Suc.hyps(1) [of "Suc n" r "pos(key (ranked ! n) \<mapsto> r)"] d n by (simp add: r_def)
    have ix: "py_index ranked (n - 1) = Inr (ranked ! m)"
      using Suc n by (simp add: py_index_def)
    have rl: "rank_loop key val ranked ((n, ranked ! n) # rest) cur pos
        = rank_loop key val ranked rest r (pos(key (ranked ! n) \<mapsto> r))" for rest
      using Suc ix r by (simp add: Let_def)
    show ?thesis
      unfolding en up rl IH by (simp add: assign_def r_def)
  qed
qed

lemma rank_loop_all:
  "rank_loop key val ranked (enumerate 0 ranked) (Suc 0) pos
     = Inr (assign key val ranked [0..<length ranked] pos)"
  using rank_loop_eq [of 0 ranked 1 val key pos] by simp

lemma assign_notin:
  "\<forall>i\<in>set is. key (ranked ! i) \<noteq> k \<Longrightarrow> assign key val ranked is pos k = pos k"
  by (induction "is" arbitrary: pos) (auto simp: assign_def)

lemma assign_snoc:
  "assign key val ranked (is @ [i]) pos
     = (assign key val ranked is pos)(key (ranked ! i) \<mapsto> walk_rank (map val ranked) i)"
  by (simp add: assign_def)

lemma assign_dom:
  "dom (assign key val ranked is pos) = dom pos \<union> (\<lambda>i. key (ranked ! i)) ` set is"
  by (induction "is" arbitrary: pos) (auto simp: assign_def)

lemma walk_rank_bounds: "1 \<le> walk_rank vs i \<and> walk_rank vs i \<le> i + 1"
  by (induction i) auto

lemma walk_rank_mono_Suc: "walk_rank vs i \<le> walk_rank vs (Suc i)"
  using walk_rank_bounds [of vs i] by simp

lemma walk_rank_mono: "i \<le> j \<Longrightarrow> walk_rank vs i \<le> walk_rank vs j"
  by (induction j) (auto simp: le_Suc_eq intro: order_trans [OF _ walk_rank_mono_Suc] simp del: walk_rank.simps)

lemma subject_loop_eq:
  "subject_loop qs sids pos = Inr (fold (subject_assign qs) sids pos)"
  by (induction sids arbitrary: pos) (simp_all add: rank_loop_all subject_assign_def Let_def)

lemma averages_loop_eq:
  "averages_loop objects year tm sts avs = Inr (averages_of objects year tm sts avs)"
  by (induction sts arbitrary: avs)
     (simp_all add: averages_of_def average_of_def dec_div_def Let_def)

lemma student_averages_eq:
  "student_averages objects sts year tm = Inr (averages_of objects year tm sts [])"
  by (simp add: student_averages_def averages_loop_eq)

lemma calculate_subject_positions_eq:
  "calculate_subject_positions qs
     = Inr (fold (subject_assign qs) (remdups (map subject qs)) Map.empty)"
  by (simp add: calculate_subject_positions_def subject_loop_eq)

lemma calculate_class_positions_eq:
  "calculate_class_positions objects sts year tm
     = Inr (assign fst snd (class_ranked objects sts year tm)
              [0..<length (class_ranked objects sts year tm)] Map.empty)"
  by (simp add: calculate_class_positions_def student_averages_eq rank_loop_all class_ranked_def Let_def)

lemma sorted_desc_nth:
  "i \<le> j \<Longrightarrow> j < length xs \<Longrightarrow> f (sorted_desc f xs ! j) \<le> f (sorted_desc f xs ! i)"
proof -
  assume ij: "i \<le> j" and j: "j < length xs"
  have "sorted (map f (sort_key f (rev xs)))" by simp
  then have "sorted (rev (map f (sorted_desc f xs)))"
    by (simp add: sorted_desc_def rev_map)
  then have "map f (sorted_desc f xs) ! j \<le> map f (sorted_desc f xs) ! i"
    using ij j by (simp add: sorted_rev_iff_nth_mono sorted_desc_def)
  then show ?thesis using ij j by (simp add: sorted_desc_def)
qed

lemma mset_sorted_desc: "mset (sorted_desc f xs) = mset xs"
  by (simp add: sorted_desc_def)

lemma set_sorted_desc: "set (sorted_desc f xs) = set xs"
  by (simp add: sorted_desc_def)

lemma length_sorted_desc: "length (sorted_desc f xs) = length xs"
  by (simp add: sorted_desc_def)

lemma walk_rank_first:
  assumes desc: "\<forall>i j. i \<le> j \<longrightarrow> j < length vs \<longrightarrow> vs ! j \<le> vs ! i"
  shows "i < length vs \<Longrightarrow> \<exists>k\<le>i. walk_rank vs i = Suc k \<and> vs ! k = vs ! i \<and> (\<forall>j<k. vs ! i < vs ! j)"
proof (induction i)
  case 0
  then show ?case by simp
next
  case (Suc i)
  then obtain k where k: "k \<le> i" "walk_rank vs i = Suc k" "vs ! k = vs ! i" "\<forall>j<k. vs ! i < vs ! j"
    by auto
  have le: "vs ! Suc i \<le> vs ! i" using desc Suc.prems by simp
  show ?case
  proof (cases "vs ! Suc i < vs ! i")
    case True
    have "\<forall>j<Suc i. vs ! Suc i < vs ! j"
    proof (intro allI impI)
      fix j assume "j < Suc i"
      then have "vs ! i \<le> vs ! j" using desc Suc.prems by simp
      then show "vs ! Suc i < vs ! j" using True by simp
    qed
    then show ?thesis using True by (intro exI [of _ "Suc i"]) simp
  next
    case False
    then have eq: "vs ! Suc i = vs ! i" using le by simp
    show ?thesis using False k eq by (intro exI [of _ k]) simp
  qed
qed

lemma filter_greater_prefix:
  fixes vs :: "'v::linorder list"
  assumes desc: "\<forall>i j. i \<le> j \<longrightarrow> j < length vs \<longrightarrow> vs ! j \<le> vs ! i"
    and k: "k < length vs" and x: "vs ! k = x" and gt: "\<forall>j<k. x < vs ! j"
  shows "length (filter (\<lambda>v. x < v) vs) = k"
proof -
  have a: "filter (\<lambda>v. x < v) (take k vs) = take k vs"
    using gt k by (auto simp: filter_id_conv in_set_conv_nth)
  have b: "filter (\<lambda>v. x < v) (drop k vs) = []"
  proof -
    have "\<not> x < v" if "v \<in> set (drop k vs)" for v
    proof -
      from that obtain j where j: "j < length vs - k" "v = vs ! (k + j)"
        by (auto simp: in_set_conv_nth)
      then have "vs ! (k + j) \<le> vs ! k" using desc by simp
      then show ?thesis using j x by simp
    qed
    then show ?thesis by (simp add: filter_empty_conv)
  qed
  have "filter (\<lambda>v. x < v) vs = filter (\<lambda>v. x < v) (take k vs @ drop k vs)" by simp
  also have "\<dots> = take k vs" using a b by (simp del: append_take_drop_id)
  finally show ?thesis using k by simp
qed

lemma walk_rank_count:
  assumes desc: "\<forall>i j. i \<le> j \<longrightarrow> j < length vs \<longrightarrow> vs ! j \<le> vs ! i"
    and i: "i < length vs"
  shows "walk_rank vs i = Suc (length (filter (\<lambda>v. vs ! i < v) vs))"
proof -
  from walk_rank_first [OF desc i] obtain k where
    k: "k \<le> i" "walk_rank vs i = Suc k" "vs ! k = vs ! i" "\<forall>j<k. vs ! i < vs ! j" by auto
  have "length (filter (\<lambda>v. vs ! i < v) vs) = k"
    using filter_greater_prefix [OF desc _ k(3) k(4)] k(1) i by simp
  then show ?thesis using k(2) by simp
qed

lemma assign_append:
  "assign key val r (is @ js) pos = assign key val r js (assign key val r is pos)"
  by (simp add: assign_def)

lemma assign_last:
  assumes i: "i < length r" and last: "\<forall>j. i < j \<longrightarrow> j < length r \<longrightarrow> key (r ! j) \<noteq> key (r ! i)"
  shows "assign key val r [0..<length r] pos (key (r ! i)) = Some (walk_rank (map val r) i)"
proof -
  have sp: "[0..<length r] = ([0..<i] @ [i]) @ [Suc i..<length r]"
    using i by (metis le_add2 less_imp_add_positive upt_add_eq_append upt_conv_Cons append.assoc append_Cons append_Nil plus_1_eq_Suc le0 Suc_leI upt_Suc_append)
  have "assign key val r [0..<length r] pos (key (r ! i))
      = assign key val r ([0..<i] @ [i]) pos (key (r ! i))"
    unfolding sp assign_append [of key val r "[0..<i] @ [i]"]
    using last by (intro assign_notin) simp
  then show ?thesis by (simp add: assign_snoc)
qed

lemma rank_in_mset:
  "mset g = mset g' \<Longrightarrow> rank_in key val g k = rank_in key val g' k"
proof -
  assume eq: "mset g = mset g'"
  then have st: "set g = set g'" by (rule mset_eq_setD)
  have "length (filter P g) = length (filter P g')" for P
  proof -
    have "length (filter P g) = size (filter_mset P (mset g))"
      by (metis mset_filter size_mset)
    also have "\<dots> = size (filter_mset P (mset g'))" using eq by simp
    also have "\<dots> = length (filter P g')"
      by (metis mset_filter size_mset)
    finally show ?thesis .
  qed
  then show ?thesis using st by (simp add: rank_in_def)
qed

lemma assign_rank_in:
  assumes desc: "\<forall>i j. i \<le> j \<longrightarrow> j < length r \<longrightarrow> val (r ! j) \<le> val (r ! i)"
  shows "assign key val r [0..<length r] pos k
           = (case rank_in key val r k of Some n \<Rightarrow> Some n | None \<Rightarrow> pos k)"
proof (cases "k \<in> key ` set r")
  case False
  then have "\<forall>i\<in>set [0..<length r]. key (r ! i) \<noteq> k" by auto
  then have "assign key val r [0..<length r] pos k = pos k" by (rule assign_notin)
  then show ?thesis using False by (simp add: rank_in_def)
next
  case True
  define I where "I = {i. i < length r \<and> key (r ! i) = k}"
  have fin: "finite I" by (simp add: I_def)
  have ne: "I \<noteq> {}" using True by (auto simp: I_def in_set_conv_nth)
  define i where "i = Max I"
  have iI: "i \<in> I" unfolding i_def using fin ne by (rule Max_in)
  then have i: "i < length r" and ki: "key (r ! i) = k" by (simp_all add: I_def)
  have mx: "j \<le> i" if "j \<in> I" for j unfolding i_def using fin that by (rule Max_ge)
  have last: "\<forall>j. i < j \<longrightarrow> j < length r \<longrightarrow> key (r ! j) \<noteq> key (r ! i)"
  proof (intro allI impI notI)
    fix j assume "i < j" "j < length r" "key (r ! j) = key (r ! i)"
    then have "j \<in> I" using ki by (simp add: I_def)
    then have "j \<le> i" by (rule mx)
    then show False using \<open>i < j\<close> by simp
  qed
  have a: "assign key val r [0..<length r] pos k = Some (walk_rank (map val r) i)"
    using assign_last [OF i last, of val pos] ki by simp
  have descm: "\<forall>a b. a \<le> b \<longrightarrow> b < length (map val r) \<longrightarrow> map val r ! b \<le> map val r ! a"
    using desc by simp
  have b: "walk_rank (map val r) i = Suc (length (filter (\<lambda>v. val (r ! i) < v) (map val r)))"
    using walk_rank_count [OF descm, of i] i by simp
  have c: "length (filter (\<lambda>v. val (r ! i) < v) (map val r))
         = length (filter (\<lambda>x. val (r ! i) < val x) r)"
    by (simp add: filter_map comp_def)
  have mn: "Min (val ` {y \<in> set r. key y = k}) = val (r ! i)"
  proof (rule Min_eqI)
    show "finite (val ` {y \<in> set r. key y = k})" by simp
    show "val (r ! i) \<in> val ` {y \<in> set r. key y = k}" using i ki by auto
    fix v assume "v \<in> val ` {y \<in> set r. key y = k}"
    then obtain j where j: "j < length r" "key (r ! j) = k" "v = val (r ! j)"
      by (auto simp: in_set_conv_nth)
    then have "j \<in> I" by (simp add: I_def)
    then have "j \<le> i" by (rule mx)
    then show "val (r ! i) \<le> v" using desc i j by simp
  qed
  show ?thesis using a b c mn True by (simp add: rank_in_def)
qed

lemma mset_ranked_scores: "mset (ranked_scores qs sid) = mset (subject_group qs sid)"
  by (simp add: ranked_scores_def subject_scores_def mset_sorted_desc subject_group_def)

lemma ranked_scores_desc:
  "i \<le> j \<Longrightarrow> j < length (ranked_scores qs sid)
   \<Longrightarrow> total_score (ranked_scores qs sid ! j) \<le> total_score (ranked_scores qs sid ! i)"
  unfolding ranked_scores_def by (rule sorted_desc_nth) (simp_all add: length_sorted_desc)

lemma subject_assign_lookup:
  "subject_assign qs sid pos k
     = (case rank_in position_key total_score (subject_group qs sid) k of
          Some n \<Rightarrow> Some n | None \<Rightarrow> pos k)"
proof -
  have "subject_assign qs sid pos k
     = (case rank_in position_key total_score (ranked_scores qs sid) k of
          Some n \<Rightarrow> Some n | None \<Rightarrow> pos k)"
    unfolding subject_assign_def
    by (rule assign_rank_in) (simp add: ranked_scores_desc)
  then show ?thesis
    by (simp add: rank_in_mset [OF mset_ranked_scores])
qed

lemma rank_in_other_subject:
  "snd k \<noteq> sid \<Longrightarrow> rank_in position_key total_score (subject_group qs sid) k = None"
  by (auto simp: rank_in_def subject_group_def position_key_def)

lemma fold_subject_assign:
  "fold (subject_assign qs) sids pos k
     = (if snd k \<in> set sids
        then (case rank_in position_key total_score (subject_group qs (snd k)) k of
                Some n \<Rightarrow> Some n | None \<Rightarrow> pos k)
        else pos k)"
proof (induction sids arbitrary: pos)
  case Nil
  then show ?case by simp
next
  case (Cons sid sids)
  have st: "fold (subject_assign qs) (sid # sids) pos k
      = (if snd k \<in> set sids
         then (case rank_in position_key total_score (subject_group qs (snd k)) k of
                 Some n \<Rightarrow> Some n | None \<Rightarrow> subject_assign qs sid pos k)
         else subject_assign qs sid pos k)"
    using Cons.IH [of "subject_assign qs sid pos"] by simp
  have sa: "subject_assign qs sid pos k
      = (case rank_in position_key total_score (subject_group qs sid) k of
           Some n \<Rightarrow> Some n | None \<Rightarrow> pos k)"
    by (rule subject_assign_lookup)
  show ?case
  proof (cases "snd k = sid")
    case True
    show ?thesis
      using True by (subst st) (simp add: sa split: option.splits)
  next
    case False
    then have "subject_assign qs sid pos k = pos k"
      by (simp add: sa rank_in_other_subject)
    then show ?thesis
      using False by (subst st) (simp split: option.splits)
  qed
qed

lemma rank_in_empty: "rank_in key val [] k = None"
  by (simp add: rank_in_def)

lemma subject_positions_lookup:
  "\<exists>m. calculate_subject_positions qs = Inr m
     \<and> (\<forall>k. m k = rank_in position_key total_score (subject_group qs (snd k)) k)"
proof -
  have "fold (subject_assign qs) (remdups (map subject qs)) Map.empty k
      = rank_in position_key total_score (subject_group qs (snd k)) k" for k
  proof (cases "snd k \<in> subject ` set qs")
    case True
    then show ?thesis by (simp add: fold_subject_assign split: option.splits)
  next
    case False
    then have "subject_group qs (snd k) = []"
      by (auto simp: subject_group_def filter_empty_conv image_iff)
    then show ?thesis using False by (simp add: fold_subject_assign rank_in_empty)
  qed
  then show ?thesis by (simp add: calculate_subject_positions_eq)
qed

lemma map_of_averages_of:
  "map_of (averages_of objects year tm sts avs) k
     = (if k \<in> set sts then Some (average_of objects year tm k) else map_of avs k)"
  by (induction sts arbitrary: avs) (simp_all add: averages_of_def update_conv')

lemma distinct_averages_of:
  "distinct (map fst avs) \<Longrightarrow> distinct (map fst (averages_of objects year tm sts avs))"
  by (induction sts arbitrary: avs) (simp_all add: averages_of_def distinct_update)

lemma keys_averages_of:
  "fst ` set (averages_of objects year tm sts avs) = fst ` set avs \<union> set sts"
proof -
  have "dom (map_of (averages_of objects year tm sts avs)) = dom (map_of avs) \<union> set sts"
    by (auto simp: map_of_averages_of dom_def)
  then show ?thesis by (simp add: dom_map_of_conv_image_fst)
qed


lemma average_of_none:
  "student_scores objects st year tm = [] \<Longrightarrow> average_of objects year tm st = 0"
  by (simp add: average_of_def)

lemma dec_round_of_int: "\<bar>n\<bar> < 10 ^ 28 \<Longrightarrow> dec_round (of_int n) = of_int n"
  using dec_round_exact [of n 0] by simp

lemma dec_round_numeral: "(numeral k :: int) < 10 ^ 28 \<Longrightarrow> dec_round (numeral k) = numeral k"
  using dec_round_of_int [of "numeral k"] by simp

lemma class_ranked_desc:
  "i \<le> j \<Longrightarrow> j < length (sorted_desc snd avgs)
   \<Longrightarrow> snd (sorted_desc snd avgs ! j) \<le> snd (sorted_desc snd avgs ! i)"
  by (rule sorted_desc_nth) (simp_all add: length_sorted_desc)

lemma class_positions_lookup:
  "\<exists>m. calculate_class_positions objects sts year tm = Inr m
     \<and> (\<forall>k. m k = rank_in fst snd (averages_of objects year tm sts []) k)"
proof -
  define avgs where "avgs = averages_of objects year tm sts []"
  define r where "r = sorted_desc snd avgs"
  have "assign fst snd r [0..<length r] Map.empty k = rank_in fst snd avgs k" for k
  proof -
    have "assign fst snd r [0..<length r] Map.empty k
        = (case rank_in fst snd r k of Some n \<Rightarrow> Some n | None \<Rightarrow> Map.empty k)"
      by (rule assign_rank_in) (simp add: r_def class_ranked_desc)
    also have "\<dots> = rank_in fst snd r k" by (simp split: option.splits)
    also have "\<dots> = rank_in fst snd avgs k"
      unfolding r_def by (rule rank_in_mset) (rule mset_sorted_desc)
    finally show ?thesis .
  qed
  then show ?thesis
    by (simp add: calculate_class_positions_eq class_ranked_def avgs_def r_def)
qed

lemma rank_in_dom: "rank_in key val g k \<noteq> None \<longleftrightarrow> k \<in> key ` set g"
  by (simp add: rank_in_def)

lemma rank_in_bounds:
  assumes "rank_in key val g k = Some n"
  shows "1 \<le> n \<and> n \<le> length g"
proof -
  from assms have k: "k \<in> key ` set g"
    and n: "n = Suc (length (filter (\<lambda>x. Min (val ` {y \<in> set g. key y = k}) < val x) g))"
    by (auto simp: rank_in_def split: if_splits)
  define S where "S = val ` {y \<in> set g. key y = k}"
  have "finite S" "S \<noteq> {}" using k by (auto simp: S_def)
  then have "Min S \<in> S" by (rule Min_in)
  then obtain y where y: "y \<in> set g" "val y = Min S" by (auto simp: S_def)
  have "length (filter (\<lambda>x. Min S < val x) g) < length g"
    using y by (intro length_filter_less [of y]) simp_all
  then show ?thesis using n by (simp add: S_def)
qed

lemma rank_in_distinct:
  assumes d: "distinct (map key g)" and x: "x \<in> set g"
  shows "rank_in key val g (key x) = Some (Suc (length (filter (\<lambda>y. val x < val y) g)))"
proof -
  have "{y \<in> set g. key y = key x} = {x}"
    using d x by (auto simp: distinct_map inj_on_def)
  then show ?thesis using x by (simp add: rank_in_def)
qed

lemma length_filter_mono:
  "(\<And>z. z \<in> set g \<Longrightarrow> P z \<Longrightarrow> Q z) \<Longrightarrow> length (filter P g) \<le> length (filter Q g)"
  by (induction g) auto

lemma length_filter_strict:
  "(\<And>z. z \<in> set g \<Longrightarrow> P z \<Longrightarrow> Q z) \<Longrightarrow> x \<in> set g \<Longrightarrow> Q x \<Longrightarrow> \<not> P x
   \<Longrightarrow> length (filter P g) < length (filter Q g)"
proof (induction g)
  case Nil
  then show ?case by simp
next
  case (Cons a g)
  show ?case
  proof (cases "x = a")
    case True
    have "length (filter P g) \<le> length (filter Q g)"
      using Cons.prems(1) by (intro length_filter_mono) simp_all
    then show ?thesis using True Cons.prems by simp
  next
    case False
    then have "length (filter P g) < length (filter Q g)"
      using Cons.prems by (intro Cons.IH) simp_all
    then show ?thesis using Cons.prems(1) [of a] by auto
  qed
qed

lemma rank_in_top:
  fixes val :: "'a \<Rightarrow> 'v::linorder"
  assumes d: "distinct (map key g)" and ne: "g \<noteq> []"
  shows "\<exists>x\<in>set g. rank_in key val g (key x) = Some 1"
proof -
  have "finite (val ` set g)" "val ` set g \<noteq> {}" using ne by simp_all
  then have "Max (val ` set g) \<in> val ` set g" by (rule Max_in)
  then obtain x where x: "x \<in> set g" "val x = Max (val ` set g)" by auto
  have "\<not> val x < val y" if "y \<in> set g" for y
  proof -
    have "val y \<le> Max (val ` set g)" using that by simp
    then show ?thesis using x(2) by simp
  qed
  then have "filter (\<lambda>y. val x < val y) g = []" by (simp add: filter_empty_conv)
  then show ?thesis using rank_in_distinct [OF d x(1), of val] x(1) by auto
qed

lemma rank_in_order:
  fixes val :: "'a \<Rightarrow> 'v::linorder"
  assumes d: "distinct (map key g)" and x: "x \<in> set g" and y: "y \<in> set g"
  shows "(val y \<le> val x \<longrightarrow> the (rank_in key val g (key x)) \<le> the (rank_in key val g (key y)))
       \<and> (val y < val x \<longrightarrow> the (rank_in key val g (key x)) < the (rank_in key val g (key y)))"
proof -
  have a: "val y \<le> val x \<Longrightarrow>
      length (filter (\<lambda>z. val x < val z) g) \<le> length (filter (\<lambda>z. val y < val z) g)"
    by (rule length_filter_mono) simp
  have b: "val y < val x \<Longrightarrow>
      length (filter (\<lambda>z. val x < val z) g) < length (filter (\<lambda>z. val y < val z) g)"
    using x by (intro length_filter_strict [of g _ _ x]) simp_all
  show ?thesis
    using a b by (simp add: rank_in_distinct [OF d x] rank_in_distinct [OF d y])
qed

lemma rank_in_walk:
  assumes desc: "\<forall>i j. i \<le> j \<longrightarrow> j < length r \<longrightarrow> val (r ! j) \<le> val (r ! i)"
    and d: "distinct (map key r)" and i: "i < length r"
  shows "rank_in key val r (key (r ! i)) = Some (walk_rank (map val r) i)"
proof -
  have last: "\<forall>j. i < j \<longrightarrow> j < length r \<longrightarrow> key (r ! j) \<noteq> key (r ! i)"
    using d i by (auto simp: distinct_conv_nth)
  have "assign key val r [0..<length r] Map.empty (key (r ! i))
      = Some (walk_rank (map val r) i)"
    by (rule assign_last [OF i last])
  moreover have "assign key val r [0..<length r] Map.empty (key (r ! i))
      = rank_in key val r (key (r ! i))"
    using assign_rank_in [OF desc, of key Map.empty "key (r ! i)"]
    by (simp split: option.splits)
  ultimately show ?thesis by simp
qed

section \<open>The ranking functions always return\<close>

text \<open>
  Claim C5. Neither ranking function raises, whatever rows and students it is given: the
  index \<^verbatim>\<open>i-1\<close> is always in range and the division is never by zero. No rows give the
  empty dictionary of subject positions, no students the empty dictionary of class positions;
  a single row and a single student get position 1; negative marks are ranked like any other.
\<close>

theorem ranking_never_raises:
  "(\<exists>m. calculate_subject_positions qs = Inr m)
   \<and> (\<exists>m. calculate_class_positions objects sts year tm = Inr m)
   \<and> calculate_subject_positions [] = Inr Map.empty
   \<and> calculate_class_positions objects [] year tm = Inr Map.empty
   \<and> calculate_subject_positions [s] = Inr [position_key s \<mapsto> 1]
   \<and> calculate_class_positions objects [st] year tm = Inr [st \<mapsto> 1]
   \<and> calculate_subject_positions [row 1 1 (- 500) 0, row 2 1 (- 300) (- 100)]
       = Inr [(2, 1) \<mapsto> 1, (1, 1) \<mapsto> 2]"
proof -
  have a: "\<exists>m. calculate_subject_positions qs = Inr m"
    by (simp add: calculate_subject_positions_eq)
  have b: "\<exists>m. calculate_class_positions objects sts year tm = Inr m"
    by (simp add: calculate_class_positions_eq)
  have c: "calculate_subject_positions [] = Inr Map.empty"
    by (simp add: calculate_subject_positions_def)
  have d: "calculate_class_positions objects [] year tm = Inr Map.empty"
    by (simp add: calculate_class_positions_def student_averages_def sorted_desc_def)
  have e: "calculate_subject_positions [s] = Inr [position_key s \<mapsto> 1]"
    by (simp add: calculate_subject_positions_def ranked_scores_def subject_scores_def
        sorted_desc_def)
  have f: "calculate_class_positions objects [st] year tm = Inr [st \<mapsto> 1]"
    by (simp add: calculate_class_positions_eq class_ranked_def averages_of_def sorted_desc_def
        assign_def)
  have g: "calculate_subject_positions [row 1 1 (- 500) 0, row 2 1 (- 300) (- 100)]
       = Inr [(2, 1) \<mapsto> 1, (1, 1) \<mapsto> 2]"
    by (simp add: calculate_subject_positions_def ranked_scores_def subject_scores_def
        sorted_desc_def row_def total_score_def position_key_def py_index_def numeral_2_eq_2)
  from a b c d e f g show ?thesis by blast
qed

section \<open>The value ranked in the class\<close>




section \<open>Who is ranked\<close>

text \<open>
  Claim C3. The two rankings treat missing scores differently. A pair of student and subject
  has a subject position exactly when the queryset holds a row of that student in that
  subject: a student without a row in a subject is left out of that subject, not ranked last.
  Every student of the roster has a class position, and one without any row in the year and
  term is ranked with the value 0.
\<close>

theorem missing_scores_asymmetry:
  "(\<exists>m. calculate_subject_positions qs = Inr m
      \<and> (m (st, sb) \<noteq> None \<longleftrightarrow> (\<exists>s\<in>set qs. student s = st \<and> subject s = sb)))
   \<and> (\<exists>avgs m. student_averages objects sts year tm = Inr avgs
      \<and> calculate_class_positions objects sts year tm = Inr m
      \<and> (m st \<noteq> None \<longleftrightarrow> st \<in> set sts)
      \<and> (st \<in> set sts \<and> student_scores objects st year tm = [] \<longrightarrow> map_of avgs st = Some 0))"
proof -
  from subject_positions_lookup [of qs] obtain m where
    m: "calculate_subject_positions qs = Inr m"
    and ml: "\<forall>k. m k = rank_in position_key total_score (subject_group qs (snd k)) k" by blast
  have "m (st, sb) \<noteq> None \<longleftrightarrow> (st, sb) \<in> position_key ` set (subject_group qs sb)"
    using ml rank_in_dom [of position_key total_score "subject_group qs sb" "(st, sb)"]
    by simp
  also have "\<dots> \<longleftrightarrow> (\<exists>s\<in>set qs. student s = st \<and> subject s = sb)"
    by (auto simp: subject_group_def position_key_def)
  finally have a: "m (st, sb) \<noteq> None \<longleftrightarrow> (\<exists>s\<in>set qs. student s = st \<and> subject s = sb)" .
  define avgs where "avgs = averages_of objects year tm sts []"
  from class_positions_lookup [of objects sts year tm] obtain c where
    c: "calculate_class_positions objects sts year tm = Inr c"
    and cl: "\<forall>k. c k = rank_in fst snd avgs k" unfolding avgs_def by blast
  have sa: "student_averages objects sts year tm = Inr avgs"
    by (simp add: student_averages_eq avgs_def)
  have b: "c st \<noteq> None \<longleftrightarrow> st \<in> set sts"
    using cl keys_averages_of [of objects year tm sts "[]"]
      rank_in_dom [of fst snd avgs st] by (simp add: avgs_def)
  have d: "st \<in> set sts \<and> student_scores objects st year tm = [] \<longrightarrow> map_of avgs st = Some 0"
    by (simp add: avgs_def map_of_averages_of average_of_none)
  from m a sa c b d show ?thesis by blast
qed

theorem missing_scores_asymmetry_witness:
  "(\<exists>m. calculate_subject_positions [row 1 1 4500 4500, row 2 1 4500 4500, row 1 2 4000 4000]
          = Inr m \<and> m (2, 2) = None \<and> m (1, 2) \<noteq> None)
   \<and> student_scores [row 1 1 4500 4500, row 2 1 4500 4500, row 1 2 4000 4000] 3 1 1 = []
   \<and> (\<exists>avgs m. student_averages [row 1 1 4500 4500, row 2 1 4500 4500, row 1 2 4000 4000]
                  [1, 2, 3] 1 1 = Inr avgs
        \<and> calculate_class_positions [row 1 1 4500 4500, row 2 1 4500 4500, row 1 2 4000 4000]
                  [1, 2, 3] 1 1 = Inr m
        \<and> m 3 \<noteq> None \<and> map_of avgs 3 = Some 0)"
proof -
  define objs where "objs = [row 1 1 4500 4500, row 2 1 4500 4500, row 1 2 4000 4000]"
  have n22: "\<not> (\<exists>s\<in>set objs. student s = 2 \<and> subject s = 2)"
    by (simp add: objs_def row_def)
  have y12: "\<exists>s\<in>set objs. student s = 1 \<and> subject s = 2"
    by (simp add: objs_def row_def)
  have e3: "student_scores objs 3 1 1 = []"
    by (simp add: objs_def student_scores_def row_def)
  have r3: "(3::nat) \<in> set [1, 2, 3]" by simp
  have a: "\<exists>m. calculate_subject_positions objs = Inr m \<and> m (2, 2) = None \<and> m (1, 2) \<noteq> None"
    using missing_scores_asymmetry [of objs 2 2 objs "[]" 1 1]
      missing_scores_asymmetry [of objs 1 2 objs "[]" 1 1] n22 y12 by auto
  have b: "\<exists>avgs m. student_averages objs [1, 2, 3] 1 1 = Inr avgs
        \<and> calculate_class_positions objs [1, 2, 3] 1 1 = Inr m
        \<and> m 3 \<noteq> None \<and> map_of avgs 3 = Some 0"
    using missing_scores_asymmetry [of objs 3 2 objs "[1, 2, 3]" 1 1] e3 r3 by blast
  from a e3 b show ?thesis unfolding objs_def by blast
qed

text \<open>
  Claim C8. The positions in a subject depend on the rows of that subject only: two
  querysets with the same rows for a subject give every student the same position in it,
  whatever their other rows are. And the positions depend on the rows, not on the order the
  database delivers them in: querysets with the same rows give the same dictionary.
\<close>

theorem subject_rankings_independent:
  "(mset (filter (\<lambda>s. subject s = sb) qs1) = mset (filter (\<lambda>s. subject s = sb) qs2)
      \<longrightarrow> (\<exists>m1 m2. calculate_subject_positions qs1 = Inr m1
             \<and> calculate_subject_positions qs2 = Inr m2
             \<and> (\<forall>st. m1 (st, sb) = m2 (st, sb))))
   \<and> (mset qs1 = mset qs2 \<longrightarrow> calculate_subject_positions qs1 = calculate_subject_positions qs2)"
proof -
  from subject_positions_lookup [of qs1] obtain m1 where
    m1: "calculate_subject_positions qs1 = Inr m1"
    and l1: "\<forall>k. m1 k = rank_in position_key total_score (subject_group qs1 (snd k)) k" by blast
  from subject_positions_lookup [of qs2] obtain m2 where
    m2: "calculate_subject_positions qs2 = Inr m2"
    and l2: "\<forall>k. m2 k = rank_in position_key total_score (subject_group qs2 (snd k)) k" by blast
  have a: "\<forall>st. m1 (st, sb) = m2 (st, sb)"
    if "mset (filter (\<lambda>s. subject s = sb) qs1) = mset (filter (\<lambda>s. subject s = sb) qs2)"
  proof -
    from that have "mset (subject_group qs1 sb) = mset (subject_group qs2 sb)"
      by (simp add: subject_group_def)
    then have "rank_in position_key total_score (subject_group qs1 sb) k
        = rank_in position_key total_score (subject_group qs2 sb) k" for k
      by (rule rank_in_mset)
    then show ?thesis using l1 l2 by simp
  qed
  have b: "calculate_subject_positions qs1 = calculate_subject_positions qs2"
    if eq: "mset qs1 = mset qs2"
  proof -
    have "m1 k = m2 k" for k
    proof -
      have "mset (subject_group qs1 (snd k)) = mset (subject_group qs2 (snd k))"
        using eq by (simp add: subject_group_def)
      then have "rank_in position_key total_score (subject_group qs1 (snd k)) k
          = rank_in position_key total_score (subject_group qs2 (snd k)) k"
        by (rule rank_in_mset)
      then show ?thesis using l1 [rule_format, of k] l2 [rule_format, of k] by simp
    qed
    then have "m1 = m2" by (rule ext)
    then show ?thesis using m1 m2 by simp
  qed
  from m1 m2 a b show ?thesis by blast
qed

theorem subject_rankings_independent_witness:
  "mset (filter (\<lambda>s. subject s = 1) [row 1 1 4500 4500, row 2 1 3000 4500, row 1 2 4000 4000])
     = mset (filter (\<lambda>s. subject s = 1)
         [row 3 2 5000 5000, row 2 1 3000 4500, row 2 2 100 200, row 1 1 4500 4500])
   \<and> (\<exists>m1 m2.
        calculate_subject_positions [row 1 1 4500 4500, row 2 1 3000 4500, row 1 2 4000 4000]
          = Inr m1
        \<and> calculate_subject_positions
            [row 3 2 5000 5000, row 2 1 3000 4500, row 2 2 100 200, row 1 1 4500 4500] = Inr m2
        \<and> m1 (1, 1) = m2 (1, 1) \<and> m1 (2, 1) = m2 (2, 1))"
proof -
  define qa where "qa = [row 1 1 4500 4500, row 2 1 3000 4500, row 1 2 4000 4000]"
  define qb where
    "qb = [row 3 2 5000 5000, row 2 1 3000 4500, row 2 2 100 200, row 1 1 4500 4500]"
  have h: "mset (filter (\<lambda>s. subject s = 1) qa) = mset (filter (\<lambda>s. subject s = 1) qb)"
    by (simp add: qa_def qb_def row_def)
  from subject_rankings_independent [of 1 qa qb] h
  have "\<exists>m1 m2. calculate_subject_positions qa = Inr m1
      \<and> calculate_subject_positions qb = Inr m2
      \<and> m1 (1, 1) = m2 (1, 1) \<and> m1 (2, 1) = m2 (2, 1)" by blast
  with h show ?thesis unfolding qa_def qb_def by blast
qed

section \<open>Shape of the rank maps\<close>

lemma distinct_keys_group:
  "distinct (map position_key qs) \<Longrightarrow> distinct (map position_key (subject_group qs sb))"
  by (simp add: subject_group_def distinct_map_filter)

lemma distinct_keys_ranked:
  assumes "distinct (map position_key qs)"
  shows "distinct (map position_key (ranked_scores qs sb))"
proof -
  have "mset (map position_key (ranked_scores qs sb))
      = mset (map position_key (subject_group qs sb))"
    using mset_ranked_scores [of qs sb] by (metis mset_map)
  then show ?thesis
    using distinct_keys_group [OF assms, of sb] by (metis mset_eq_imp_distinct_iff)
qed

lemma length_averages_of:
  "length (averages_of objects year tm sts []) = card (set sts)"
proof -
  define avgs where "avgs = averages_of objects year tm sts []"
  have d: "distinct (map fst avgs)" unfolding avgs_def by (rule distinct_averages_of) simp
  have k: "set (map fst avgs) = set sts"
    using keys_averages_of [of objects year tm sts "[]"] by (simp add: avgs_def)
  have "length avgs = length (map fst avgs)" by simp
  also have "\<dots> = card (set (map fst avgs))" using d by (simp only: distinct_card)
  finally show ?thesis using k by (simp add: avgs_def)
qed

lemma subject_rank_bounds:
  assumes ml: "\<forall>k. m k = rank_in position_key total_score (subject_group qs (snd k)) k"
  shows "\<forall>st sb n. m (st, sb) = Some n
           \<longrightarrow> 1 \<le> n \<and> n \<le> length (filter (\<lambda>s. subject s = sb) qs)"
proof (intro allI impI)
  fix st sb n assume "m (st, sb) = Some n"
  then have "rank_in position_key total_score (subject_group qs sb) (st, sb) = Some n"
    using ml [rule_format, of "(st, sb)"] by simp
  from rank_in_bounds [OF this]
  show "1 \<le> n \<and> n \<le> length (filter (\<lambda>s. subject s = sb) qs)"
    by (simp add: subject_group_def)
qed

lemma subject_rank_top:
  assumes ml: "\<forall>k. m k = rank_in position_key total_score (subject_group qs (snd k)) k"
    and d: "distinct (map position_key qs)"
  shows "\<forall>x\<in>set qs. \<exists>st. m (st, subject x) = Some 1"
proof
  fix x assume x: "x \<in> set qs"
  define g where "g = subject_group qs (subject x)"
  have ne: "g \<noteq> []" using x by (auto simp: g_def subject_group_def filter_empty_conv)
  have dg: "distinct (map position_key g)" unfolding g_def using d by (rule distinct_keys_group)
  from rank_in_top [OF dg ne, of total_score] obtain z where
    z: "z \<in> set g" "rank_in position_key total_score g (position_key z) = Some 1" by blast
  have sz: "subject z = subject x" using z(1) by (simp add: g_def subject_group_def)
  have "m (student z, subject x) = Some 1"
    using ml [rule_format, of "(student z, subject x)"] z(2) sz
    by (simp add: position_key_def g_def)
  then show "\<exists>st. m (st, subject x) = Some 1" ..
qed

lemma subject_rank_order:
  assumes ml: "\<forall>k. m k = rank_in position_key total_score (subject_group qs (snd k)) k"
    and d: "distinct (map position_key qs)"
  shows "\<forall>x\<in>set qs. \<forall>y\<in>set qs. \<forall>a b.
           subject x = subject y \<and> m (position_key x) = Some a \<and> m (position_key y) = Some b
           \<longrightarrow> (total_score y \<le> total_score x \<longrightarrow> a \<le> b)
               \<and> (total_score y < total_score x \<longrightarrow> a < b)"
proof (intro ballI allI impI)
  fix x y a b
  assume x: "x \<in> set qs" and y: "y \<in> set qs"
    and h: "subject x = subject y \<and> m (position_key x) = Some a \<and> m (position_key y) = Some b"
  define sb where "sb = subject x"
  have kx: "position_key x = (student x, sb)" and ky: "position_key y = (student y, sb)"
    using h by (simp_all add: position_key_def sb_def)
  have ma: "m (student x, sb) = Some a" and mb: "m (student y, sb) = Some b"
    using h kx ky by simp_all
  define g where "g = subject_group qs sb"
  have dg: "distinct (map position_key g)" unfolding g_def using d by (rule distinct_keys_group)
  have xg: "x \<in> set g" and yg: "y \<in> set g"
    using x y h by (simp_all add: g_def subject_group_def sb_def)
  have ra: "rank_in position_key total_score g (position_key x) = Some a"
    using ml [rule_format, of "(student x, sb)"] ma by (simp add: kx g_def)
  have rb: "rank_in position_key total_score g (position_key y) = Some b"
    using ml [rule_format, of "(student y, sb)"] mb by (simp add: ky g_def)
  show "(total_score y \<le> total_score x \<longrightarrow> a \<le> b) \<and> (total_score y < total_score x \<longrightarrow> a < b)"
    using rank_in_order [OF dg xg yg, of total_score] ra rb by simp
qed

lemma class_rank_order:
  assumes cl: "\<forall>k. c k = rank_in fst snd avgs k" and d: "distinct (map fst avgs)"
  shows "\<forall>x y va vb a b.
           map_of avgs x = Some va \<and> map_of avgs y = Some vb \<and> c x = Some a \<and> c y = Some b
           \<longrightarrow> (vb \<le> va \<longrightarrow> a \<le> b) \<and> (vb < va \<longrightarrow> a < b)"
proof (intro allI impI)
  fix x y :: 'a and va vb :: 'b and a b
  assume h: "map_of avgs x = Some va \<and> map_of avgs y = Some vb \<and> c x = Some a \<and> c y = Some b"
  then have xa: "(x, va) \<in> set avgs" and yb: "(y, vb) \<in> set avgs"
    by (simp_all add: map_of_SomeD)
  have ra: "rank_in fst snd avgs (fst (x, va)) = Some a" using cl h by simp
  have rb: "rank_in fst snd avgs (fst (y, vb)) = Some b" using cl h by simp
  show "(vb \<le> va \<longrightarrow> a \<le> b) \<and> (vb < va \<longrightarrow> a < b)"
    using rank_in_order [OF d xa yb, of snd] ra rb by simp
qed

text \<open>
  Claim C10. In the dictionaries the two functions return, every position lies between 1
  and the number of entities of its group (the rows of the subject, the students of the
  roster). The class ranking of a roster that is not empty gives someone position 1, and a
  student with a greater value never has a greater position than one with a smaller value:
  a greater or equal value gives a position that is at most the other's, a strictly greater
  value a strictly smaller one. The same holds within each subject when the queryset has
  one row for each student and subject, which the uniqueness constraint of the table
  guarantees for the rows of one term and year.
\<close>

theorem rank_map_invariants:
  "(\<exists>m. calculate_subject_positions qs = Inr m
      \<and> (\<forall>st sb n. m (st, sb) = Some n
            \<longrightarrow> 1 \<le> n \<and> n \<le> length (filter (\<lambda>s. subject s = sb) qs))
      \<and> (distinct (map position_key qs) \<longrightarrow>
            (\<forall>x\<in>set qs. \<exists>st. m (st, subject x) = Some 1)
          \<and> (\<forall>x\<in>set qs. \<forall>y\<in>set qs. \<forall>a b.
                subject x = subject y \<and> m (position_key x) = Some a \<and> m (position_key y) = Some b
                \<longrightarrow> (total_score y \<le> total_score x \<longrightarrow> a \<le> b)
                    \<and> (total_score y < total_score x \<longrightarrow> a < b))))
   \<and> (\<exists>avgs m. student_averages objects sts year tm = Inr avgs
      \<and> calculate_class_positions objects sts year tm = Inr m
      \<and> (\<forall>st n. m st = Some n \<longrightarrow> 1 \<le> n \<and> n \<le> card (set sts))
      \<and> (sts \<noteq> [] \<longrightarrow> (\<exists>st. m st = Some 1))
      \<and> (\<forall>x y va vb a b.
            map_of avgs x = Some va \<and> map_of avgs y = Some vb \<and> m x = Some a \<and> m y = Some b
            \<longrightarrow> (vb \<le> va \<longrightarrow> a \<le> b) \<and> (vb < va \<longrightarrow> a < b)))"
proof -
  from subject_positions_lookup [of qs] obtain m where
    m: "calculate_subject_positions qs = Inr m"
    and ml: "\<forall>k. m k = rank_in position_key total_score (subject_group qs (snd k)) k" by blast
  note s1 = subject_rank_bounds [OF ml]
  have s2: "distinct (map position_key qs) \<longrightarrow>
            (\<forall>x\<in>set qs. \<exists>st. m (st, subject x) = Some 1)
          \<and> (\<forall>x\<in>set qs. \<forall>y\<in>set qs. \<forall>a b.
                subject x = subject y \<and> m (position_key x) = Some a \<and> m (position_key y) = Some b
                \<longrightarrow> (total_score y \<le> total_score x \<longrightarrow> a \<le> b)
                    \<and> (total_score y < total_score x \<longrightarrow> a < b))"
    using subject_rank_top [OF ml] subject_rank_order [OF ml] by blast
  define avgs where "avgs = averages_of objects year tm sts []"
  from class_positions_lookup [of objects sts year tm] obtain c where
    c: "calculate_class_positions objects sts year tm = Inr c"
    and cl: "\<forall>k. c k = rank_in fst snd avgs k" unfolding avgs_def by blast
  have sa: "student_averages objects sts year tm = Inr avgs"
    by (simp add: student_averages_eq avgs_def)
  have d: "distinct (map fst avgs)" unfolding avgs_def by (rule distinct_averages_of) simp
  have c1: "\<forall>st n. c st = Some n \<longrightarrow> 1 \<le> n \<and> n \<le> card (set sts)"
  proof (intro allI impI)
    fix st n assume "c st = Some n"
    then have "rank_in fst snd avgs st = Some n" using cl by simp
    from rank_in_bounds [OF this] show "1 \<le> n \<and> n \<le> card (set sts)"
      by (simp add: avgs_def length_averages_of)
  qed
  have c2: "sts \<noteq> [] \<longrightarrow> (\<exists>st. c st = Some 1)"
  proof
    assume "sts \<noteq> []"
    then have "length avgs \<noteq> 0" by (simp add: avgs_def length_averages_of)
    then have ne: "avgs \<noteq> []" by simp
    from rank_in_top [OF d ne, of snd] obtain z where
      "z \<in> set avgs" "rank_in fst snd avgs (fst z) = Some 1" by blast
    then have "c (fst z) = Some 1" using cl by simp
    then show "\<exists>st. c st = Some 1" ..
  qed
  note c3 = class_rank_order [OF cl d]
  from m s1 s2 sa c c1 c2 c3 show ?thesis by blast
qed

theorem rank_map_invariants_witness:
  "distinct (map position_key
      [row 1 1 4500 4500, row 1 2 4000 4000, row 2 1 5000 4000, row 2 2 3500 3500, row 3 1 0 0])
   \<and> row 2 2 3500 3500
       \<in> set [row 1 1 4500 4500, row 1 2 4000 4000, row 2 1 5000 4000, row 2 2 3500 3500,
              row 3 1 0 0]
   \<and> [1, 2, 3 :: nat] \<noteq> []
   \<and> (\<exists>m. calculate_subject_positions
             [row 1 1 4500 4500, row 1 2 4000 4000, row 2 1 5000 4000, row 2 2 3500 3500,
              row 3 1 0 0] = Inr m
          \<and> (\<exists>st. m (st, 2) = Some 1))
   \<and> (\<exists>m. calculate_class_positions
             [row 1 1 4500 4500, row 1 2 4000 4000, row 2 1 5000 4000, row 2 2 3500 3500,
              row 3 1 0 0] [1, 2, 3] 1 1 = Inr m
          \<and> (\<exists>st. m st = Some 1))"
proof -
  define objs where
    "objs = [row 1 1 4500 4500, row 1 2 4000 4000, row 2 1 5000 4000, row 2 2 3500 3500,
             row 3 1 0 0]"
  have h1: "distinct (map position_key objs)"
    by (simp add: objs_def position_key_def row_def)
  have h2: "row 2 2 3500 3500 \<in> set objs" by (simp add: objs_def)
  have h3: "[1, 2, 3 :: nat] \<noteq> []" by simp
  have sb: "subject (row 2 2 3500 3500) = 2" by (simp add: row_def)
  from rank_map_invariants [of objs objs "[1, 2, 3]" 1 1] h1 h3
  obtain m c where
    m: "calculate_subject_positions objs = Inr m"
    and mt: "\<forall>x\<in>set objs. \<exists>st. m (st, subject x) = Some 1"
    and c: "calculate_class_positions objs [1, 2, 3] 1 1 = Inr c"
    and ct: "\<exists>st. c st = Some 1"
    by blast
  from mt h2 sb have "\<exists>st. m (st, 2) = Some 1" by metis
  with m c ct h1 h2 h3 show ?thesis unfolding objs_def by blast
qed

section \<open>Competition ranking\<close>

lemma subject_walk:
  assumes ml: "\<forall>k. m k = rank_in position_key total_score (subject_group qs (snd k)) k"
    and d: "distinct (map position_key qs)"
  shows "\<forall>i<length (ranked_scores qs sb).
           m (position_key (ranked_scores qs sb ! i))
             = Some (walk_rank (map total_score (ranked_scores qs sb)) i)"
proof (intro allI impI)
  fix i assume i: "i < length (ranked_scores qs sb)"
  define r where "r = ranked_scores qs sb"
  have "set r = set (subject_group qs sb)"
    unfolding r_def by (rule mset_eq_setD) (rule mset_ranked_scores)
  moreover have "r ! i \<in> set r" using i by (simp add: r_def)
  ultimately have sb: "subject (r ! i) = sb" by (simp add: subject_group_def)
  have desc: "\<forall>a b. a \<le> b \<longrightarrow> b < length r \<longrightarrow> total_score (r ! b) \<le> total_score (r ! a)"
    unfolding r_def by (simp add: ranked_scores_desc)
  have dr: "distinct (map position_key r)" unfolding r_def using d by (rule distinct_keys_ranked)
  have "m (position_key (r ! i))
      = rank_in position_key total_score (subject_group qs sb) (position_key (r ! i))"
    using ml [rule_format, of "position_key (r ! i)"] sb by (simp add: position_key_def)
  also have "\<dots> = rank_in position_key total_score r (position_key (r ! i))"
    unfolding r_def by (rule rank_in_mset) (simp add: mset_ranked_scores)
  also have "\<dots> = Some (walk_rank (map total_score r) i)"
    using i by (intro rank_in_walk [OF desc dr]) (simp add: r_def)
  finally show "m (position_key (ranked_scores qs sb ! i))
             = Some (walk_rank (map total_score (ranked_scores qs sb)) i)"
    by (simp add: r_def)
qed

lemma class_walk:
  assumes cl: "\<forall>k. c k = rank_in fst snd avgs k" and d: "distinct (map fst avgs)"
  shows "\<forall>i<length (sorted_desc snd avgs).
           c (fst (sorted_desc snd avgs ! i))
             = Some (walk_rank (map snd (sorted_desc snd avgs)) i)"
proof (intro allI impI)
  fix i assume i: "i < length (sorted_desc snd avgs)"
  define r where "r = sorted_desc snd avgs"
  have desc: "\<forall>a b. a \<le> b \<longrightarrow> b < length r \<longrightarrow> snd (r ! b) \<le> snd (r ! a)"
    unfolding r_def by (simp add: class_ranked_desc)
  have "mset (map fst r) = mset (map fst avgs)"
    using mset_sorted_desc [of snd avgs] by (metis mset_map r_def)
  then have dr: "distinct (map fst r)" using d by (metis mset_eq_imp_distinct_iff)
  have "c (fst (r ! i)) = rank_in fst snd avgs (fst (r ! i))" using cl by simp
  also have "\<dots> = rank_in fst snd r (fst (r ! i))"
    unfolding r_def by (rule rank_in_mset) (simp add: mset_sorted_desc)
  also have "\<dots> = Some (walk_rank (map snd r) i)"
    using i by (intro rank_in_walk [OF desc dr]) (simp add: r_def)
  finally show "c (fst (sorted_desc snd avgs ! i))
             = Some (walk_rank (map snd (sorted_desc snd avgs)) i)"
    by (simp add: r_def)
qed

lemma six_subject:
  "calculate_subject_positions six
     = Inr [(1, 1) \<mapsto> 1, (2, 1) \<mapsto> 1, (3, 1) \<mapsto> 3, (6, 1) \<mapsto> 4, (4, 1) \<mapsto> 4, (5, 1) \<mapsto> 4]"
  by (simp add: six_def calculate_subject_positions_def ranked_scores_def subject_scores_def
      sorted_desc_def row_def total_score_def position_key_def py_index_def
      numeral_2_eq_2 numeral_3_eq_3 eval_nat_numeral)

lemma six_class:
  "calculate_class_positions six [1, 2, 3, 4, 5, 6] 1 1
     = Inr [1 \<mapsto> 1, 2 \<mapsto> 1, 3 \<mapsto> 3, 4 \<mapsto> 4, 5 \<mapsto> 4, 6 \<mapsto> 4]"
  by (simp add: six_def calculate_class_positions_eq class_ranked_def averages_of_def
      average_of_def student_scores_def sorted_desc_def row_def total_score_def assign_def
      dec_round_numeral eval_nat_numeral)

lemma six_walk: "map (walk_rank [9000, 9000, 8000, 7000, 7000, 7000 :: int]) [0..<6] = [1, 1, 3, 4, 4, 4]"
  by (simp add: eval_nat_numeral upt_rec)

text \<open>
  Claim C1. Both functions walk their list, sorted by value in descending order, and give
  the entry at index \<open>i\<close> the position \<open>walk_rank vs i\<close>, where \<open>vs\<close> are the values
  along the list: position 1 at index 0, position \<open>i + 1\<close> at an index \<open>i\<close> whose value is
  strictly less than the one before, and the position of the entry before otherwise. So a
  block of \<open>k\<close> tied entries is followed by a position that is \<open>k\<close> greater: the values
  90, 90, 80, 70, 70, 70 get the positions 1, 1, 3, 4, 4, 4, from the walk and from both
  functions. For the subject positions the queryset is taken to hold one row for each
  student and subject, so that no entry of the dictionary is written twice.
\<close>

theorem competition_ranking:
  "(\<exists>m. calculate_subject_positions qs = Inr m
      \<and> (distinct (map position_key qs) \<longrightarrow>
           (\<forall>i<length (ranked_scores qs sb).
              m (position_key (ranked_scores qs sb ! i))
                = Some (walk_rank (map total_score (ranked_scores qs sb)) i))))
   \<and> (\<forall>i j. i \<le> j \<and> j < length (ranked_scores qs sb)
        \<longrightarrow> total_score (ranked_scores qs sb ! j) \<le> total_score (ranked_scores qs sb ! i))
   \<and> (\<exists>avgs m. student_averages objects sts year tm = Inr avgs
      \<and> calculate_class_positions objects sts year tm = Inr m
      \<and> (\<forall>i<length (sorted_desc snd avgs).
            m (fst (sorted_desc snd avgs ! i))
              = Some (walk_rank (map snd (sorted_desc snd avgs)) i))
      \<and> (\<forall>i j. i \<le> j \<and> j < length (sorted_desc snd avgs)
            \<longrightarrow> snd (sorted_desc snd avgs ! j) \<le> snd (sorted_desc snd avgs ! i)))
   \<and> walk_rank vs 0 = 1
   \<and> walk_rank vs (Suc n) = (if vs ! Suc n < vs ! n then Suc n + 1 else walk_rank vs n)
   \<and> map (walk_rank [9000, 9000, 8000, 7000, 7000, 7000 :: int]) [0..<6] = [1, 1, 3, 4, 4, 4]
   \<and> calculate_subject_positions six
       = Inr [(1, 1) \<mapsto> 1, (2, 1) \<mapsto> 1, (3, 1) \<mapsto> 3, (6, 1) \<mapsto> 4, (4, 1) \<mapsto> 4, (5, 1) \<mapsto> 4]
   \<and> calculate_class_positions six [1, 2, 3, 4, 5, 6] 1 1
       = Inr [1 \<mapsto> 1, 2 \<mapsto> 1, 3 \<mapsto> 3, 4 \<mapsto> 4, 5 \<mapsto> 4, 6 \<mapsto> 4]"
proof -
  from subject_positions_lookup [of qs] obtain m where
    m: "calculate_subject_positions qs = Inr m"
    and ml: "\<forall>k. m k = rank_in position_key total_score (subject_group qs (snd k)) k" by blast
  have s1: "distinct (map position_key qs) \<longrightarrow>
           (\<forall>i<length (ranked_scores qs sb).
              m (position_key (ranked_scores qs sb ! i))
                = Some (walk_rank (map total_score (ranked_scores qs sb)) i))"
    using subject_walk [OF ml] by blast
  have s2: "\<forall>i j. i \<le> j \<and> j < length (ranked_scores qs sb)
        \<longrightarrow> total_score (ranked_scores qs sb ! j) \<le> total_score (ranked_scores qs sb ! i)"
    by (simp add: ranked_scores_desc)
  define avgs where "avgs = averages_of objects year tm sts []"
  from class_positions_lookup [of objects sts year tm] obtain c where
    c: "calculate_class_positions objects sts year tm = Inr c"
    and cl: "\<forall>k. c k = rank_in fst snd avgs k" unfolding avgs_def by blast
  have sa: "student_averages objects sts year tm = Inr avgs"
    by (simp add: student_averages_eq avgs_def)
  have d: "distinct (map fst avgs)" unfolding avgs_def by (rule distinct_averages_of) simp
  note c1 = class_walk [OF cl d]
  have c2: "\<forall>i j. i \<le> j \<and> j < length (sorted_desc snd avgs)
            \<longrightarrow> snd (sorted_desc snd avgs ! j) \<le> snd (sorted_desc snd avgs ! i)"
    by (simp add: class_ranked_desc)
  have w: "walk_rank vs 0 = 1
      \<and> walk_rank vs (Suc n) = (if vs ! Suc n < vs ! n then Suc n + 1 else walk_rank vs n)"
    by simp
  from m s1 s2 sa c c1 c2 w six_walk six_subject six_class show ?thesis by blast
qed

theorem competition_ranking_witness:
  "distinct (map position_key six) \<and> (3::nat) \<le> 4 \<and> 4 < length (ranked_scores six 1)
   \<and> position_key (ranked_scores six 1 ! 2) = (3, 1)
   \<and> walk_rank (map total_score (ranked_scores six 1)) 2 = 3
   \<and> (\<exists>m. calculate_subject_positions six = Inr m \<and> m (3, 1) = Some 3)
   \<and> total_score (ranked_scores six 1 ! 4) \<le> total_score (ranked_scores six 1 ! 3)"
proof -
  have h1: "distinct (map position_key six)"
    by (simp add: six_def position_key_def row_def)
  have r: "ranked_scores six 1
      = [row 1 1 4500 4500, row 2 1 4000 5000, row 3 1 4000 4000, row 6 1 5000 2000,
         row 4 1 3500 3500, row 5 1 3000 4000]"
    by (simp add: six_def ranked_scores_def subject_scores_def sorted_desc_def row_def
        total_score_def)
  have h2: "(3::nat) \<le> 4 \<and> 4 < length (ranked_scores six 1)" unfolding r by simp
  have h3: "2 < length (ranked_scores six 1)" unfolding r by simp
  have k: "position_key (ranked_scores six 1 ! 2) = (3, 1)"
    unfolding r by (simp add: position_key_def row_def)
  have w: "walk_rank (map total_score (ranked_scores six 1)) 2 = 3"
    unfolding r by (simp add: row_def total_score_def eval_nat_numeral)
  from competition_ranking [of six 1 "[]" "[]" 1 1 "[]" 0] h1
  obtain m where m: "calculate_subject_positions six = Inr m"
    and mw: "\<forall>i<length (ranked_scores six 1).
              m (position_key (ranked_scores six 1 ! i))
                = Some (walk_rank (map total_score (ranked_scores six 1)) i)"
    and ds: "\<forall>i j. i \<le> j \<and> j < length (ranked_scores six 1)
        \<longrightarrow> total_score (ranked_scores six 1 ! j) \<le> total_score (ranked_scores six 1 ! i)"
    by blast
  from mw h3 k w have "m (3, 1) = Some 3" by metis
  moreover from ds h2 have "total_score (ranked_scores six 1 ! 4) \<le> total_score (ranked_scores six 1 ! 3)"
    by blast
  ultimately show ?thesis using h1 h2 k w m by blast
qed

end
